theory Spec2Isabelle
  imports Main
begin

section \<open>The overlay application: data\<close>

text \<open>
  The program is the Go file \<^verbatim>\<open>app.go\<close> (the \<^verbatim>\<open>App\<close> struct, its methods and two
  package-level variables) and the React component of \<^verbatim>\<open>App.tsx\<close>. Both are glue over
  two external collaborators: the GUI runtime (window calls and the event bridge) and the
  hotkey library. The embedding keeps the process state in one record \<open>sys\<close>; every
  call on a collaborator is appended to \<open>trace\<close>, in program order.
\<close>

type_synonym Context = nat

text \<open>\<^verbatim>\<open>type App struct { ctx context.Context; hk *hotkey.Hotkey }\<close>. A nil interface or
  pointer is \<open>None\<close>; a hotkey pointer is the index of the object in \<open>hotkeys\<close>.\<close>

record App =
  ctx :: "Context option"
  hk :: "nat option"

datatype Modifier = ModCtrl | ModShift | ModOption | ModCmd

datatype Key = KeyG

text \<open>A hotkey object of the hotkey library: its combination, whether the binding is held,
  the key-down notifications not yet received, and whether the sequence has been closed.\<close>

record Hotkey =
  mods :: "Modifier list"
  key :: Key
  registered :: bool
  keydown :: "unit list"
  keydown_closed :: bool

datatype error = HotkeyUnavailable | NotRegistered

text \<open>A buffered Go channel of \<^verbatim>\<open>struct{}\<close>: the buffered values and the capacity.\<close>

record chan =
  buf :: "unit list"
  cap :: nat

definition make_chan :: "nat \<Rightarrow> chan" where
  "make_chan n = \<lparr>buf = [], cap = n\<rparr>"

text \<open>The two goroutines that \<^verbatim>\<open>startup\<close> starts: the hotkey listener, a closure over
  \<^verbatim>\<open>hk\<close> and \<^verbatim>\<open>ctx\<close>, and the event handler, a closure over the receiver.\<close>

datatype goroutine = Listener nat "Context option" | Handler

datatype call =
    Call_show "Context option"
  | Call_center "Context option"
  | Call_setAlwaysOnTop "Context option" bool
  | Call_hide "Context option"
  | Call_emit "Context option" string
  | Call_new nat
  | Call_register nat
  | Call_unregister nat
  | Call_go goroutine

record sys =
  app :: App
  hotkeyInitOnce :: bool
  hotkeyEvents :: chan
  hotkeys :: "Hotkey list"
  os_denies :: bool
  goroutines :: "goroutine list"
  visible :: bool
  centered :: bool
  alwaysOnTop :: bool
  listeners :: "string list"
  escape_listeners :: nat
  focus_timers :: nat
  trace :: "call list"

text \<open>\<^verbatim>\<open>func NewApp() *App { return &App{} }\<close>\<close>

definition NewApp :: App where
  "NewApp = \<lparr>ctx = None, hk = None\<rparr>"

text \<open>The process at launch: the package-level variables as declared
  (\<^verbatim>\<open>hotkeyEvents = make(chan struct{}, 1)\<close>, the once-guard not yet run), one \<^verbatim>\<open>App\<close>
  from \<^verbatim>\<open>NewApp\<close>, the overlay hidden, no front end mounted. The argument says whether
  the operating system will refuse the key combination.\<close>

definition init_sys :: "bool \<Rightarrow> sys" where
  "init_sys d =
     \<lparr>app = NewApp, hotkeyInitOnce = False, hotkeyEvents = make_chan 1, hotkeys = [],
      os_denies = d, goroutines = [], visible = False, centered = False,
      alwaysOnTop = False, listeners = [], escape_listeners = 0, focus_timers = 0,
      trace = []\<rparr>"

section \<open>The window collaborator\<close>

text \<open>
  Modelled from the spec: the GUI runtime's window calls \<^verbatim>\<open>WindowShow\<close>,
  \<^verbatim>\<open>WindowCenter\<close>, \<^verbatim>\<open>WindowSetAlwaysOnTop\<close> and \<^verbatim>\<open>WindowHide\<close> are not among the
  sources. Each call is logged with the context it was given and has the one effect on the
  window that the specification gives it (show makes the overlay visible, hide hides it);
  as in section 4.2 of the specification, the calls are synchronous and do not fail.
\<close>

definition WindowShow :: "Context option \<Rightarrow> sys \<Rightarrow> sys" where
  "WindowShow c s = s\<lparr>visible := True, trace := trace s @ [Call_show c]\<rparr>"

definition WindowCenter :: "Context option \<Rightarrow> sys \<Rightarrow> sys" where
  "WindowCenter c s = s\<lparr>centered := True, trace := trace s @ [Call_center c]\<rparr>"

definition WindowSetAlwaysOnTop :: "Context option \<Rightarrow> bool \<Rightarrow> sys \<Rightarrow> sys" where
  "WindowSetAlwaysOnTop c b s =
     s\<lparr>alwaysOnTop := b, trace := trace s @ [Call_setAlwaysOnTop c b]\<rparr>"

definition WindowHide :: "Context option \<Rightarrow> sys \<Rightarrow> sys" where
  "WindowHide c s = s\<lparr>visible := False, trace := trace s @ [Call_hide c]\<rparr>"

text \<open>What an observer of the window sees, and the window calls of a trace.\<close>

definition window_state :: "sys \<Rightarrow> bool \<times> bool \<times> bool" where
  "window_state s = (visible s, centered s, alwaysOnTop s)"

fun is_window_call :: "call \<Rightarrow> bool" where
  "is_window_call (Call_show c) = True"
| "is_window_call (Call_center c) = True"
| "is_window_call (Call_setAlwaysOnTop c b) = True"
| "is_window_call (Call_hide c) = True"
| "is_window_call x = False"

definition window_calls :: "sys \<Rightarrow> call list" where
  "window_calls s = filter is_window_call (trace s)"

section \<open>The visibility methods of \<^verbatim>\<open>app.go\<close>\<close>

text \<open>\<^verbatim>\<open>func (a *App) ShowOverlay()\<close>: three runtime calls on \<^verbatim>\<open>a.ctx\<close>.\<close>

definition ShowOverlay :: "sys \<Rightarrow> sys" where
  "ShowOverlay s =
     (let s1 = WindowShow (ctx (app s)) s;
          s2 = WindowCenter (ctx (app s1)) s1
      in WindowSetAlwaysOnTop (ctx (app s2)) True s2)"

text \<open>\<^verbatim>\<open>func (a *App) HideOverlay()\<close>\<close>

definition HideOverlay :: "sys \<Rightarrow> sys" where
  "HideOverlay s = WindowHide (ctx (app s)) s"

text \<open>\<^verbatim>\<open>func (a *App) OnWindowBlur() { a.HideOverlay() }\<close>\<close>

definition OnWindowBlur :: "sys \<Rightarrow> sys" where
  "OnWindowBlur s = HideOverlay s"

section \<open>The front end and the event bridge\<close>

text \<open>
  \<^verbatim>\<open>App.tsx\<close>. The callback registered for \<^verbatim>\<open>'show-overlay'\<close> calls the bound method
  \<^verbatim>\<open>ShowOverlay()\<close> and sets a timer that will focus the input.
\<close>

definition show_overlay_callback :: "sys \<Rightarrow> sys" where
  "show_overlay_callback s =
     (let s1 = ShowOverlay s in s1\<lparr>focus_timers := Suc (focus_timers s1)\<rparr>)"

text \<open>\<^verbatim>\<open>handleEscape\<close>: the bound method \<^verbatim>\<open>HideOverlay()\<close> when the key is Escape, nothing
  for any other key.\<close>

definition handleEscape :: "string \<Rightarrow> sys \<Rightarrow> sys" where
  "handleEscape k s = (if k = ''Escape'' then HideOverlay s else s)"

text \<open>The body of the effect hook, run when the component mounts: it subscribes the
  callback above to \<^verbatim>\<open>'show-overlay'\<close> and adds \<^verbatim>\<open>handleEscape\<close> as a key-down listener
  of the browser window. The function the hook returns removes the key-down listener
  only. \<open>listeners\<close> holds the event names subscribed to; the source has one subscription
  site, so every entry stands for \<open>show_overlay_callback\<close>.\<close>

definition useEffect_mount :: "sys \<Rightarrow> sys" where
  "useEffect_mount s =
     s\<lparr>listeners := listeners s @ [''show-overlay''],
       escape_listeners := Suc (escape_listeners s)\<rparr>"

definition useEffect_cleanup :: "sys \<Rightarrow> sys" where
  "useEffect_cleanup s = s\<lparr>escape_listeners := escape_listeners s - 1\<rparr>"

text \<open>A key pressed while the overlay's page has the keyboard: every registered
  \<^verbatim>\<open>handleEscape\<close> runs.\<close>

definition window_keydown :: "string \<Rightarrow> sys \<Rightarrow> sys" where
  "window_keydown k s = (handleEscape k ^^ escape_listeners s) s"

text \<open>Modelled from the spec: the event bridge \<^verbatim>\<open>wailsruntime.EventsEmit(ctx, name)\<close> is
  not among the sources. The emit is logged and every callback that the front end
  subscribed to the name runs, one after the other.\<close>

definition EventsEmit :: "Context option \<Rightarrow> string \<Rightarrow> sys \<Rightarrow> sys" where
  "EventsEmit c name s =
     (show_overlay_callback ^^ length (filter (\<lambda>n. n = name) (listeners s)))
       (s\<lparr>trace := trace s @ [Call_emit c name]\<rparr>)"

section \<open>The hotkey library\<close>

text \<open>
  The hotkey library is not among the sources. Section 4.1 of the specification gives its
  contract: registration either succeeds or signals \<open>HotkeyUnavailable\<close>; while the binding
  is held, key presses become a sequence of unit notifications; \<^verbatim>\<open>unregister\<close> releases
  the binding and terminates the sequence, which cannot be restarted. A pointer that
  \<^verbatim>\<open>hotkey.New\<close> never returned does not occur in the program; such a handle is treated
  as not registered.
\<close>

text \<open>Modelled from the spec: \<^verbatim>\<open>hotkey.New(mods, key)\<close>, a new object for the combination,
  with no binding and an open, empty notification sequence.\<close>

definition fresh_hotkey :: "Modifier list \<Rightarrow> Key \<Rightarrow> Hotkey" where
  "fresh_hotkey ms k =
     \<lparr>mods = ms, key = k, registered = False, keydown = [], keydown_closed = False\<rparr>"

definition hotkey_New :: "Modifier list \<Rightarrow> Key \<Rightarrow> sys \<Rightarrow> nat \<times> sys" where
  "hotkey_New ms k s =
     (length (hotkeys s),
      s\<lparr>hotkeys := hotkeys s @ [fresh_hotkey ms k],
        trace := trace s @ [Call_new (length (hotkeys s))]\<rparr>)"

text \<open>Modelled from the spec: \<^verbatim>\<open>hk.Register()\<close>. It fails with \<open>HotkeyUnavailable\<close> when the
  combination is claimed by another process or the operating system denies the binding,
  and on an object that is already bound or already closed.\<close>

definition Register :: "nat \<Rightarrow> sys \<Rightarrow> error option \<times> sys" where
  "Register h s =
     (let s1 = s\<lparr>trace := trace s @ [Call_register h]\<rparr> in
      if h < length (hotkeys s) \<and> \<not> os_denies s \<and> \<not> registered (hotkeys s ! h)
         \<and> \<not> keydown_closed (hotkeys s ! h)
      then (None, s1\<lparr>hotkeys := (hotkeys s)[h := (hotkeys s ! h)\<lparr>registered := True\<rparr>]\<rparr>)
      else (Some HotkeyUnavailable, s1))"

text \<open>Modelled from the spec: \<^verbatim>\<open>hk.Unregister()\<close>. On an object that holds the binding it
  releases it and leaves the notification sequence exhausted and closed; on any other
  object it returns an error and changes nothing.\<close>

definition Unregister :: "nat \<Rightarrow> sys \<Rightarrow> error option \<times> sys" where
  "Unregister h s =
     (let s1 = s\<lparr>trace := trace s @ [Call_unregister h]\<rparr> in
      if h < length (hotkeys s) \<and> registered (hotkeys s ! h)
      then (None,
            s1\<lparr>hotkeys := (hotkeys s)[h := (hotkeys s ! h)
                 \<lparr>registered := False, keydown := [], keydown_closed := True\<rparr>]\<rparr>)
      else (Some NotRegistered, s1))"

text \<open>Modelled from the spec: the user presses the combination. The operating system
  notifies the hotkey object that holds the binding, and nobody otherwise.\<close>

definition os_keypress :: "nat \<Rightarrow> sys \<Rightarrow> sys" where
  "os_keypress h s =
     (if h < length (hotkeys s) \<and> registered (hotkeys s ! h)
         \<and> \<not> keydown_closed (hotkeys s ! h)
      then s\<lparr>hotkeys := (hotkeys s)[h := (hotkeys s ! h)
               \<lparr>keydown := keydown (hotkeys s ! h) @ [()]\<rparr>]\<rparr>
      else s)"

section \<open>The goroutines\<close>

text \<open>\<^verbatim>\<open>go func() { ... }()\<close>\<close>

definition go :: "goroutine \<Rightarrow> sys \<Rightarrow> sys" where
  "go g s = s\<lparr>goroutines := goroutines s @ [g], trace := trace s @ [Call_go g]\<rparr>"

text \<open>What one attempt of a goroutine to go round its \<^verbatim>\<open>for range\<close> loop does: it
  receives a value and runs the body, or it waits on the empty open channel, or it leaves
  the loop because the channel is closed and empty.\<close>

datatype 'a iteration = Ran 'a | Blocked | Exited

text \<open>The body of the listener's loop, \<^verbatim>\<open>wailsruntime.EventsEmit(ctx, "show-overlay")\<close>:
  what the program does on one hotkey notification (the specification's \<open>onHotkey\<close>).\<close>

definition onHotkey :: "Context option \<Rightarrow> sys \<Rightarrow> sys" where
  "onHotkey c s = EventsEmit c ''show-overlay'' s"

text \<open>\<^verbatim>\<open>for range hk.Keydown() { ... }\<close>, one iteration.\<close>

definition listener_step :: "nat \<Rightarrow> Context option \<Rightarrow> sys \<Rightarrow> sys iteration" where
  "listener_step h c s =
     (if h < length (hotkeys s) then
        (case keydown (hotkeys s ! h) of
           [] \<Rightarrow> if keydown_closed (hotkeys s ! h) then Exited else Blocked
         | x # q \<Rightarrow>
             Ran (onHotkey c (s\<lparr>hotkeys := (hotkeys s)[h := (hotkeys s ! h)\<lparr>keydown := q\<rparr>]\<rparr>)))
      else Blocked)"

text \<open>\<^verbatim>\<open>for range hotkeyEvents { a.ShowOverlay() }\<close>, one iteration. The channel is never
  closed, so the loop has no exit.\<close>

definition handler_step :: "sys \<Rightarrow> sys iteration" where
  "handler_step s =
     (case buf (hotkeyEvents s) of
        [] \<Rightarrow> Blocked
      | x # q \<Rightarrow> Ran (ShowOverlay (s\<lparr>hotkeyEvents := (hotkeyEvents s)\<lparr>buf := q\<rparr>\<rparr>)))"

text \<open>The listener goroutine run until it waits or leaves its loop, with the state it
  reaches. The recursion is on the number of notifications waiting in the sequence.\<close>

function hotkey_listener :: "nat \<Rightarrow> Context option \<Rightarrow> sys \<Rightarrow> unit iteration \<times> sys" where
  "hotkey_listener h c s =
     (case listener_step h c s of
        Ran s' \<Rightarrow> hotkey_listener h c s'
      | Blocked \<Rightarrow> (Blocked, s)
      | Exited \<Rightarrow> (Exited, s))"
  by pat_completeness auto

termination hotkey_listener
proof (relation "measure (\<lambda>(h, c, s). length (keydown (hotkeys s ! h)))")
  show "wf (measure (\<lambda>(h, c, s). length (keydown (hotkeys s ! h))))"
    by simp
next
  fix h :: nat and c :: "Context option" and s s' :: sys
  assume r: "listener_step h c s = Ran s'"
  have pres: "hotkeys ((show_overlay_callback ^^ n) t) = hotkeys t" for n t
    by (induct n arbitrary: t)
       (simp_all add: show_overlay_callback_def ShowOverlay_def WindowShow_def
          WindowCenter_def WindowSetAlwaysOnTop_def Let_def)
  from r have "length (keydown (hotkeys s' ! h)) < length (keydown (hotkeys s ! h))"
    by (auto simp: listener_step_def onHotkey_def EventsEmit_def pres
             split: if_splits list.splits)
  then show "((h, c, s'), (h, c, s)) \<in> measure (\<lambda>(h, c, s). length (keydown (hotkeys s ! h)))"
    by simp
qed

declare hotkey_listener.simps [simp del]

section \<open>Start-up and shutdown\<close>

text \<open>\<^verbatim>\<open>hotkeyInitOnce.Do(f)\<close>: \<open>f\<close> runs if the guard has not been used, and the guard is
  used from then on, however \<open>f\<close> returned.\<close>

definition hotkeyInitOnce_Do :: "(sys \<Rightarrow> sys) \<Rightarrow> sys \<Rightarrow> sys" where
  "hotkeyInitOnce_Do f s = (if hotkeyInitOnce s then s else (f s)\<lparr>hotkeyInitOnce := True\<rparr>)"

text \<open>The function literal given to the guard in \<^verbatim>\<open>startup\<close>: create the hotkey, register
  it, and on failure return at once; on success keep the handle in \<^verbatim>\<open>a.hk\<close> and start the
  two goroutines. The calls that pin the goroutine to its thread around this body leave no
  trace in the state.\<close>

definition init_hotkey :: "Context option \<Rightarrow> sys \<Rightarrow> sys" where
  "init_hotkey c s =
     (let (h, s1) = hotkey_New [ModCmd] KeyG s;
          (err, s2) = Register h s1
      in case err of
           Some e \<Rightarrow> s2
         | None \<Rightarrow>
             (let s3 = s2\<lparr>app := (app s2)\<lparr>hk := Some h\<rparr>\<rparr>;
                  s4 = go (Listener h c) s3
              in go Handler s4))"

text \<open>\<^verbatim>\<open>func (a *App) startup(ctx context.Context)\<close>\<close>

definition startup :: "Context option \<Rightarrow> sys \<Rightarrow> sys" where
  "startup c s = hotkeyInitOnce_Do (init_hotkey c) (s\<lparr>app := (app s)\<lparr>ctx := c\<rparr>\<rparr>)"

text \<open>A method call through a hotkey pointer, \<^verbatim>\<open>p.Unregister()\<close>: through a nil pointer
  it panics, otherwise it is the library's \<open>Unregister\<close> on the object.\<close>

datatype panic = NilDereference

definition ptr_Unregister :: "nat option \<Rightarrow> sys \<Rightarrow> panic + error option \<times> sys" where
  "ptr_Unregister p s = (case p of None \<Rightarrow> Inl NilDereference | Some h \<Rightarrow> Inr (Unregister h s))"

text \<open>\<^verbatim>\<open>func (a *App) Cleanup(ctx context.Context) bool\<close>: the call is guarded by
  \<^verbatim>\<open>a.hk != nil\<close>, its error is assigned to the blank identifier, and the result is
  \<^verbatim>\<open>false\<close>. A panic would be \<open>Inl\<close>.\<close>

definition Cleanup :: "Context option \<Rightarrow> sys \<Rightarrow> panic + bool \<times> sys" where
  "Cleanup c s =
     (if hk (app s) \<noteq> None then
        (case ptr_Unregister (hk (app s)) s of
           Inl p \<Rightarrow> Inl p
         | Inr (err, s1) \<Rightarrow> Inr (False, s1))
      else Inr (False, s))"

section \<open>Executions\<close>

text \<open>
  What can happen to the process, one atomic step at a time: the GUI runtime calls a
  method of the \<^verbatim>\<open>App\<close>, the front end mounts, unmounts or sees a key, the user presses
  the hotkey combination, or the scheduler lets one of the started goroutines attempt an
  iteration of its loop. An execution is a list of such steps from \<open>init_sys\<close>.
\<close>

datatype action =
    Do_startup "Context option"
  | Do_ShowOverlay
  | Do_HideOverlay
  | Do_OnWindowBlur
  | Do_Cleanup "Context option"
  | Do_mount
  | Do_unmount
  | Do_window_keydown string
  | Do_os_keypress nat
  | Do_goroutine nat

fun run_goroutine :: "goroutine \<Rightarrow> sys \<Rightarrow> sys" where
  "run_goroutine (Listener h c) s = (case listener_step h c s of Ran s' \<Rightarrow> s' | _ \<Rightarrow> s)"
| "run_goroutine Handler s = (case handler_step s of Ran s' \<Rightarrow> s' | _ \<Rightarrow> s)"

fun step :: "action \<Rightarrow> sys \<Rightarrow> sys" where
  "step (Do_startup c) s = startup c s"
| "step Do_ShowOverlay s = ShowOverlay s"
| "step Do_HideOverlay s = HideOverlay s"
| "step Do_OnWindowBlur s = OnWindowBlur s"
| "step (Do_Cleanup c) s = (case Cleanup c s of Inl p \<Rightarrow> s | Inr (b, s') \<Rightarrow> s')"
| "step Do_mount s = useEffect_mount s"
| "step Do_unmount s = useEffect_cleanup s"
| "step (Do_window_keydown k) s = window_keydown k s"
| "step (Do_os_keypress h) s = os_keypress h s"
| "step (Do_goroutine i) s =
     (if i < length (goroutines s) then run_goroutine (goroutines s ! i) s else s)"

fun exec :: "action list \<Rightarrow> sys \<Rightarrow> sys" where
  "exec [] s = s"
| "exec (a # as) s = exec as (step a s)"

text \<open>Sequences of the two visibility calls of the specification, \<open>show()\<close> and
  \<open>hide()\<close>, and the value of \<open>visible\<close> that a call implies.\<close>

datatype overlay_call = show_call | hide_call

fun overlay :: "overlay_call \<Rightarrow> sys \<Rightarrow> sys" where
  "overlay show_call s = ShowOverlay s"
| "overlay hide_call s = HideOverlay s"

fun overlay_calls :: "overlay_call list \<Rightarrow> sys \<Rightarrow> sys" where
  "overlay_calls [] s = s"
| "overlay_calls (x # xs) s = overlay_calls xs (overlay x s)"

fun implied :: "overlay_call \<Rightarrow> bool" where
  "implied show_call = True"
| "implied hide_call = False"

text \<open>Hotkey registrations, goroutine starts and emits in a trace.\<close>

fun is_emit :: "call \<Rightarrow> bool" where
  "is_emit (Call_emit c n) = True"
| "is_emit x = False"

fun is_register :: "call \<Rightarrow> bool" where
  "is_register (Call_register h) = True"
| "is_register x = False"

fun is_go :: "call \<Rightarrow> bool" where
  "is_go (Call_go g) = True"
| "is_go x = False"

text \<open>The window calls of one \<open>show()\<close> cycle and of one \<open>hide()\<close>, on context \<open>c\<close>.\<close>

definition show_cycle :: "Context option \<Rightarrow> call list" where
  "show_cycle c = [Call_show c, Call_center c, Call_setAlwaysOnTop c True]"

definition hide_cycle :: "Context option \<Rightarrow> call list" where
  "hide_cycle c = [Call_hide c]"

section \<open>Invariants of executions\<close>

text \<open>The hotkey object that a goroutine listens to.\<close>

fun listens_to :: "nat \<Rightarrow> goroutine \<Rightarrow> bool" where
  "listens_to h (Listener h' c) = (h' = h)"
| "listens_to h Handler = True"

text \<open>What holds in every state of an execution: each hotkey object was registered once
  and each goroutine started once; the guard has been used exactly when the one hotkey
  object exists; without a handle in \<^verbatim>\<open>a.hk\<close> there are no goroutines and no binding, and
  with a handle it is the first object, the two goroutines exist, and the binding is held
  exactly while the sequence is open.\<close>

definition sys_inv :: "sys \<Rightarrow> bool" where
  "sys_inv s =
     (length (filter is_register (trace s)) = length (hotkeys s)
      \<and> length (filter is_go (trace s)) = length (goroutines s)
      \<and> (hotkeyInitOnce s \<longrightarrow> length (hotkeys s) = 1)
      \<and> (\<not> hotkeyInitOnce s \<longrightarrow> hotkeys s = [] \<and> hk (app s) = None)
      \<and> (case hk (app s) of
            None \<Rightarrow>
              goroutines s = []
              \<and> list_all (\<lambda>x. \<not> registered x \<and> keydown x = [] \<and> \<not> keydown_closed x) (hotkeys s)
          | Some h \<Rightarrow>
              h = 0 \<and> length (goroutines s) = 2 \<and> list_all (listens_to 0) (goroutines s)
              \<and> list_all (\<lambda>x. (registered x \<longleftrightarrow> \<not> keydown_closed x)
                               \<and> (keydown_closed x \<longrightarrow> keydown x = [])) (hotkeys s)))"

text \<open>The state of affairs once the binding has been released.\<close>

definition released :: "sys \<Rightarrow> bool" where
  "released s =
     (hotkeyInitOnce s \<and> length (hotkeys s) = 1
      \<and> list_all (\<lambda>x. \<not> registered x \<and> keydown x = [] \<and> keydown_closed x) (hotkeys s)
      \<and> list_all (listens_to 0) (goroutines s))"

section \<open>The operations in closed form\<close>

lemma ShowOverlay_eq:
  "ShowOverlay s = s\<lparr>visible := True, centered := True, alwaysOnTop := True,
     trace := trace s @ show_cycle (ctx (app s))\<rparr>"
  by (simp add: ShowOverlay_def WindowShow_def WindowCenter_def WindowSetAlwaysOnTop_def
        show_cycle_def Let_def)

lemma HideOverlay_eq:
  "HideOverlay s = s\<lparr>visible := False, trace := trace s @ hide_cycle (ctx (app s))\<rparr>"
  by (simp add: HideOverlay_def WindowHide_def hide_cycle_def)

lemma callback_eq:
  "show_overlay_callback s = s\<lparr>visible := True, centered := True, alwaysOnTop := True,
     focus_timers := Suc (focus_timers s), trace := trace s @ show_cycle (ctx (app s))\<rparr>"
  by (simp add: show_overlay_callback_def ShowOverlay_eq Let_def)

text \<open>One or more runs of the front end's callback: the window ends as after one run, and
  the trace has one cycle per run.\<close>

lemma callbacks_eq:
  "(show_overlay_callback ^^ Suc n) s = s\<lparr>visible := True, centered := True, alwaysOnTop := True,
     focus_timers := focus_timers s + Suc n,
     trace := trace s @ concat (replicate (Suc n) (show_cycle (ctx (app s))))\<rparr>"
proof (induction n arbitrary: s)
  case 0
  show ?case by (simp add: callback_eq)
next
  case (Suc n)
  have "(show_overlay_callback ^^ Suc (Suc n)) s
          = (show_overlay_callback ^^ Suc n) (show_overlay_callback s)"
    by (simp only: funpow_Suc_right o_apply)
  also have "\<dots> = s\<lparr>visible := True, centered := True, alwaysOnTop := True,
     focus_timers := focus_timers s + Suc (Suc n),
     trace := trace s @ concat (replicate (Suc (Suc n)) (show_cycle (ctx (app s))))\<rparr>"
    by (simp only: Suc.IH) (simp add: callback_eq)
  finally show ?case .
qed

lemma overlay_calls_append:
  "overlay_calls (xs @ ys) s = overlay_calls ys (overlay_calls xs s)"
  by (induction xs arbitrary: s) simp_all

lemma callbacks_gen:
  "(show_overlay_callback ^^ n) s = s\<lparr>visible := visible s \<or> 0 < n, centered := centered s \<or> 0 < n,
     alwaysOnTop := alwaysOnTop s \<or> 0 < n, focus_timers := focus_timers s + n,
     trace := trace s @ concat (replicate n (show_cycle (ctx (app s))))\<rparr>"
proof (cases n)
  case 0
  then show ?thesis by simp
next
  case (Suc m)
  then show ?thesis by (simp only: callbacks_eq) simp
qed

lemma escapes_gen:
  "(handleEscape k ^^ n) s =
     (if k = ''Escape''
      then s\<lparr>visible := visible s \<and> n = 0,
             trace := trace s @ concat (replicate n (hide_cycle (ctx (app s))))\<rparr>
      else s)"
proof (induction n arbitrary: s)
  case 0
  show ?case by simp
next
  case (Suc n)
  have "(handleEscape k ^^ Suc n) s = (handleEscape k ^^ n) (handleEscape k s)"
    by (simp only: funpow_Suc_right o_apply)
  then show ?case
    by (simp add: Suc.IH) (simp add: handleEscape_def HideOverlay_eq)
qed

lemma filter_cycles [simp]:
  "filter is_register (concat (replicate n (show_cycle c))) = []"
  "filter is_go (concat (replicate n (show_cycle c))) = []"
  "filter is_emit (concat (replicate n (show_cycle c))) = []"
  "filter is_register (concat (replicate n (hide_cycle c))) = []"
  "filter is_go (concat (replicate n (hide_cycle c))) = []"
  "filter is_emit (concat (replicate n (hide_cycle c))) = []"
  "filter is_window_call (concat (replicate n (show_cycle c))) = concat (replicate n (show_cycle c))"
  by (induction n) (simp_all add: show_cycle_def hide_cycle_def)

lemma filter_cycle [simp]:
  "filter is_register (show_cycle c) = []"
  "filter is_go (show_cycle c) = []"
  "filter is_emit (show_cycle c) = []"
  "filter is_register (hide_cycle c) = []"
  "filter is_go (hide_cycle c) = []"
  "filter is_emit (hide_cycle c) = []"
  by (simp_all add: show_cycle_def hide_cycle_def)

lemma onHotkey_eq:
  "onHotkey c s =
     s\<lparr>visible := visible s \<or> ''show-overlay'' \<in> set (listeners s),
       centered := centered s \<or> ''show-overlay'' \<in> set (listeners s),
       alwaysOnTop := alwaysOnTop s \<or> ''show-overlay'' \<in> set (listeners s),
       focus_timers := focus_timers s + length (filter (\<lambda>n. n = ''show-overlay'') (listeners s)),
       trace := trace s @ Call_emit c ''show-overlay'' #
         concat (replicate (length (filter (\<lambda>n. n = ''show-overlay'') (listeners s)))
                   (show_cycle (ctx (app s))))\<rparr>"
  by (simp add: onHotkey_def EventsEmit_def callbacks_gen filter_empty_conv)

lemma startup_done:
  "hotkeyInitOnce s \<Longrightarrow> startup c s = s\<lparr>app := (app s)\<lparr>ctx := c\<rparr>\<rparr>"
  by (simp add: startup_def hotkeyInitOnce_Do_def)

lemma startup_denied:
  "\<not> hotkeyInitOnce s \<Longrightarrow> os_denies s \<Longrightarrow>
   startup c s = s\<lparr>app := (app s)\<lparr>ctx := c\<rparr>, hotkeyInitOnce := True,
     hotkeys := hotkeys s @ [fresh_hotkey [ModCmd] KeyG],
     trace := trace s @ [Call_new (length (hotkeys s)), Call_register (length (hotkeys s))]\<rparr>"
  by (simp add: startup_def hotkeyInitOnce_Do_def init_hotkey_def hotkey_New_def Register_def
        fresh_hotkey_def Let_def)

lemma startup_granted:
  "\<not> hotkeyInitOnce s \<Longrightarrow> \<not> os_denies s \<Longrightarrow>
   startup c s = s\<lparr>app := \<lparr>ctx = c, hk = Some (length (hotkeys s))\<rparr>, hotkeyInitOnce := True,
     hotkeys := hotkeys s @ [(fresh_hotkey [ModCmd] KeyG)\<lparr>registered := True\<rparr>],
     goroutines := goroutines s @ [Listener (length (hotkeys s)) c, Handler],
     trace := trace s @ [Call_new (length (hotkeys s)), Call_register (length (hotkeys s)),
                         Call_go (Listener (length (hotkeys s)) c), Call_go Handler]\<rparr>"
  by (simp add: startup_def hotkeyInitOnce_Do_def init_hotkey_def hotkey_New_def Register_def
        fresh_hotkey_def go_def Let_def)

lemma Cleanup_eq:
  "Cleanup c s = Inr (False, case hk (app s) of None \<Rightarrow> s | Some h \<Rightarrow> snd (Unregister h s))"
  by (simp add: Cleanup_def ptr_Unregister_def split: option.splits prod.splits)

lemma step_Cleanup:
  "step (Do_Cleanup c) s = (case hk (app s) of None \<Rightarrow> s | Some h \<Rightarrow> snd (Unregister h s))"
  by (simp add: Cleanup_eq)

declare step.simps(5) [simp del]

lemma listener_Ran:
  assumes "listener_step h c s = Ran s'"
  shows "h < length (hotkeys s)" and "keydown (hotkeys s ! h) \<noteq> []"
    and "s' = onHotkey c
           (s\<lparr>hotkeys := (hotkeys s)[h := (hotkeys s ! h)\<lparr>keydown := tl (keydown (hotkeys s ! h))\<rparr>]\<rparr>)"
  using assms by (auto simp: listener_step_def split: if_splits list.splits)

section \<open>Every state of an execution satisfies the invariant\<close>

lemma inv_init: "sys_inv (init_sys d)"
  by (simp add: sys_inv_def init_sys_def NewApp_def)

lemma inv_startup: "sys_inv s \<Longrightarrow> sys_inv (startup c s)"
proof -
  assume i: "sys_inv s"
  consider "hotkeyInitOnce s" | "\<not> hotkeyInitOnce s" "os_denies s" | "\<not> hotkeyInitOnce s" "\<not> os_denies s"
    by blast
  then show ?thesis
  proof cases
    case 1
    with i show ?thesis by (auto simp: startup_done sys_inv_def split: option.splits)
  next
    case 2
    with i show ?thesis by (auto simp: startup_denied sys_inv_def fresh_hotkey_def split: option.splits)
  next
    case 3
    with i show ?thesis by (auto simp: startup_granted sys_inv_def fresh_hotkey_def split: option.splits)
  qed
qed

lemma inv_window:
  "sys_inv s \<Longrightarrow> sys_inv (ShowOverlay s)" "sys_inv s \<Longrightarrow> sys_inv (HideOverlay s)"
  "sys_inv s \<Longrightarrow> sys_inv (useEffect_mount s)" "sys_inv s \<Longrightarrow> sys_inv (useEffect_cleanup s)"
  "sys_inv s \<Longrightarrow> sys_inv (window_keydown k s)"
  by (auto simp: sys_inv_def ShowOverlay_eq HideOverlay_eq useEffect_mount_def
        useEffect_cleanup_def window_keydown_def escapes_gen split: option.splits)

lemma inv_Cleanup: "sys_inv s \<Longrightarrow> sys_inv (step (Do_Cleanup c) s)"
  by (auto simp: step_Cleanup sys_inv_def Unregister_def Let_def length_Suc_conv split: option.splits)

lemma inv_keypress: "sys_inv s \<Longrightarrow> sys_inv (os_keypress h s)"
  by (auto simp: os_keypress_def sys_inv_def length_Suc_conv split: option.splits)

lemma inv_hotkeys:
  assumes "sys_inv s" and "h < length (hotkeys s)"
  shows "h = 0" and "hotkeys s = [hotkeys s ! 0]"
proof -
  from assms have "length (hotkeys s) = 1"
    by (cases "hotkeyInitOnce s") (simp_all add: sys_inv_def)
  with assms(2) show "h = 0" and "hotkeys s = [hotkeys s ! 0]"
    by (simp_all add: length_Suc_conv) auto
qed

lemma inv_listener:
  assumes "sys_inv s" and "listener_step h c s = Ran s'"
  shows "sys_inv s'"
proof -
  note r = listener_Ran [OF assms(2)]
  note k = inv_hotkeys [OF assms(1) r(1)]
  obtain x where x: "hotkeys s = [x]"
    using k(2) by blast
  have nc: "\<not> keydown_closed x" if "hk (app s) = Some a" for a
    using assms(1) r(2) that x k(1) by (auto simp: sys_inv_def)
  have s': "s' = onHotkey c (s\<lparr>hotkeys := [x\<lparr>keydown := tl (keydown x)\<rparr>]\<rparr>)"
    using r(3) x k(1) by simp
  show ?thesis
  proof (cases "hk (app s)")
    case None
    with assms(1) r(2) x k(1) show ?thesis
      by (simp add: sys_inv_def)
  next
    case (Some a)
    with assms(1) nc [OF Some] x show ?thesis
      unfolding s' onHotkey_eq by (simp add: sys_inv_def)
  qed
qed

lemma inv_handler: "sys_inv s \<Longrightarrow> handler_step s = Ran s' \<Longrightarrow> sys_inv s'"
  by (auto simp: handler_step_def sys_inv_def ShowOverlay_eq split: list.splits option.splits)

lemma inv_goroutine: "sys_inv s \<Longrightarrow> sys_inv (run_goroutine g s)"
  by (cases g) (auto split: iteration.splits dest: inv_listener inv_handler)

lemma inv_step: "sys_inv s \<Longrightarrow> sys_inv (step a s)"
  by (cases a) (simp_all add: inv_startup inv_window inv_Cleanup inv_keypress inv_goroutine
       OnWindowBlur_def)

lemma inv_exec: "sys_inv s \<Longrightarrow> sys_inv (exec as s)"
  by (induction as arbitrary: s) (simp_all add: inv_step)

section \<open>The relay channel is never written\<close>

lemma relay_listener:
  assumes "listener_step h c s = Ran s'"
  shows "hotkeyEvents s' = hotkeyEvents s"
  unfolding listener_Ran(3) [OF assms] by (simp add: onHotkey_eq)

lemma relay_step: "buf (hotkeyEvents s) = [] \<Longrightarrow> hotkeyEvents (step a s) = hotkeyEvents s"
proof (cases a)
  case (Do_startup c)
  then show ?thesis
    by (cases "hotkeyInitOnce s"; cases "os_denies s")
       (simp_all add: startup_done startup_denied startup_granted)
next
  case (Do_Cleanup c)
  then show ?thesis
    by (simp add: step_Cleanup Unregister_def Let_def split: option.splits)
next
  case (Do_goroutine i)
  assume e: "buf (hotkeyEvents s) = []"
  show ?thesis
  proof (cases "i < length (goroutines s)")
    case True
    show ?thesis
    proof (cases "goroutines s ! i")
      case (Listener h c)
      with True Do_goroutine show ?thesis
        by (auto split: iteration.splits dest: relay_listener)
    next
      case Handler
      with True Do_goroutine e show ?thesis
        by (simp add: handler_step_def)
    qed
  next
    case False
    with Do_goroutine show ?thesis by simp
  qed
qed (simp_all add: ShowOverlay_eq HideOverlay_eq OnWindowBlur_def useEffect_mount_def
       useEffect_cleanup_def window_keydown_def escapes_gen os_keypress_def)

lemma relay_exec: "buf (hotkeyEvents s) = [] \<Longrightarrow> hotkeyEvents (exec as s) = hotkeyEvents s"
proof (induction as arbitrary: s)
  case Nil
  show ?case by simp
next
  case (Cons a as)
  from Cons.prems have "hotkeyEvents (step a s) = hotkeyEvents s"
    by (rule relay_step)
  with Cons.prems Cons.IH [of "step a s"] show ?case by simp
qed

section \<open>After the binding is released\<close>

lemma released_nth:
  assumes "released s" and "h < length (hotkeys s)"
  shows "\<not> registered (hotkeys s ! h)" and "keydown (hotkeys s ! h) = []"
    and "keydown_closed (hotkeys s ! h)"
  using assms by (simp_all add: released_def list_all_length)

lemma released_Unregister:
  assumes "released s"
  shows "snd (Unregister h s) = s\<lparr>trace := trace s @ [Call_unregister h]\<rparr>"
  using released_nth(1) [OF assms, of h] by (auto simp: Unregister_def Let_def)

lemma released_keypress:
  assumes "released s"
  shows "os_keypress h s = s"
proof (cases "h < length (hotkeys s)")
  case True
  from released_nth(1) [OF assms True] show ?thesis
    by (simp add: os_keypress_def)
next
  case False
  then show ?thesis
    by (simp add: os_keypress_def)
qed

lemma released_step:
  assumes "released s"
  shows "released (step a s) \<and> filter is_emit (trace (step a s)) = filter is_emit (trace s)"
proof (cases a)
  case (Do_startup c)
  with assms show ?thesis
    by (simp add: released_def startup_done)
next
  case (Do_Cleanup c)
  with assms show ?thesis
    by (simp add: step_Cleanup released_Unregister released_def split: option.splits)
next
  case (Do_os_keypress h)
  with assms show ?thesis
    by (simp add: released_keypress)
next
  case (Do_goroutine i)
  show ?thesis
  proof (cases "i < length (goroutines s)")
    case True
    show ?thesis
    proof (cases "goroutines s ! i")
      case (Listener h c)
      from released_nth(2) [OF assms, of h]
      have "listener_step h c s \<noteq> Ran s'" for s'
        by (auto simp: listener_step_def)
      with assms True Do_goroutine Listener show ?thesis
        by (simp split: iteration.splits)
    next
      case Handler
      with assms True Do_goroutine show ?thesis
        by (auto simp: handler_step_def released_def ShowOverlay_eq split: list.splits)
    qed
  next
    case False
    with assms Do_goroutine show ?thesis by simp
  qed
qed (use assms in \<open>simp_all add: released_def ShowOverlay_eq HideOverlay_eq OnWindowBlur_def
       useEffect_mount_def useEffect_cleanup_def window_keydown_def escapes_gen\<close>)

lemma released_exec:
  "released s \<Longrightarrow> released (exec as s) \<and> filter is_emit (trace (exec as s)) = filter is_emit (trace s)"
proof (induction as arbitrary: s)
  case Nil
  then show ?case by simp
next
  case (Cons a as)
  from released_step [OF Cons.prems, of a] Cons.IH [of "step a s"] show ?case
    by simp
qed

lemma released_listener:
  assumes "released s" and "Listener h c \<in> set (goroutines s)"
  shows "hotkey_listener h c s = (Exited, s)"
proof -
  from assms have "listens_to 0 (Listener h c)"
    by (auto simp: released_def list_all_iff)
  then have h: "h = 0" by simp
  from assms(1) have l: "h < length (hotkeys s)"
    by (simp add: released_def h)
  from released_nth(2,3) [OF assms(1) l] l have "listener_step h c s = Exited"
    by (simp add: listener_step_def)
  then show ?thesis
    by (simp add: hotkey_listener.simps)
qed

lemma Cleanup_released:
  assumes "sys_inv s" and "hk (app s) = Some h"
  shows "released (snd (Unregister h s))"
proof -
  from assms have o: "hotkeyInitOnce s"
    by (cases "hotkeyInitOnce s") (simp_all add: sys_inv_def)
  with assms obtain x where x: "hotkeys s = [x]" "h = 0"
    by (auto simp: sys_inv_def length_Suc_conv)
  with assms o show ?thesis
    by (auto simp: sys_inv_def released_def Unregister_def Let_def)
qed

section \<open>The visibility controller\<close>




text \<open>
  Claim C2. \<^verbatim>\<open>ShowOverlay\<close>, from any state, leaves the overlay visible and adds to the
  trace exactly the calls show, center and setAlwaysOnTop(true) on the application's
  context, in that order, each once.
\<close>

theorem ShowOverlay_calls:
  "visible (ShowOverlay s)
   \<and> trace (ShowOverlay s) =
       trace s @ [Call_show (ctx (app s)), Call_center (ctx (app s)),
                  Call_setAlwaysOnTop (ctx (app s)) True]"
  by (simp add: ShowOverlay_eq show_cycle_def)

text \<open>
  Claim C3. \<^verbatim>\<open>HideOverlay\<close>, from any state, leaves the overlay hidden and adds exactly
  one call, hide, to the trace; \<^verbatim>\<open>OnWindowBlur\<close> and the front end's handler on the
  Escape key are the same function.
\<close>

theorem HideOverlay_calls:
  "\<not> visible (HideOverlay s)
   \<and> trace (HideOverlay s) = trace s @ [Call_hide (ctx (app s))]
   \<and> OnWindowBlur s = HideOverlay s
   \<and> handleEscape ''Escape'' s = HideOverlay s"
  by (simp add: HideOverlay_eq hide_cycle_def OnWindowBlur_def handleEscape_def)

text \<open>
  Claim C4. After any sequence of show and hide calls that ends with the call \<open>x\<close>, from
  any state, \<open>visible\<close> is the value that \<open>x\<close> implies; and calling \<open>x\<close> twice leaves the
  window as calling it once does.
\<close>

theorem last_call_wins:
  "visible (overlay_calls (xs @ [x]) s) = implied x
   \<and> window_state (overlay_calls [x, x] s) = window_state (overlay_calls [x] s)"
  by (cases x) (simp_all add: overlay_calls_append ShowOverlay_eq HideOverlay_eq window_state_def)

section \<open>Start-up, the relay and shutdown\<close>

text \<open>
  Claim C5. When the operating system refuses the registration on the first \<^verbatim>\<open>startup\<close>,
  so that \<^verbatim>\<open>Register\<close> on the new object returns \<open>HotkeyUnavailable\<close>,
  \<^verbatim>\<open>startup\<close> returns a state: \<^verbatim>\<open>a.hk\<close> stays nil, \<^verbatim>\<open>a.ctx\<close> is the context given, no
  goroutine is started, no binding is held and the window is untouched. From that state
  \<^verbatim>\<open>ShowOverlay\<close> and \<^verbatim>\<open>HideOverlay\<close> do what they always do, on the context given:
  the show cycle with the overlay visible, the hide call with the overlay hidden.
\<close>

theorem startup_registration_fails:
  assumes "\<not> hotkeyInitOnce s" and "os_denies s" and "hk (app s) = None"
  shows "fst (Register (length (hotkeys s)) (snd (hotkey_New [ModCmd] KeyG s)))
           = Some HotkeyUnavailable
       \<and> hk (app (startup c s)) = None
       \<and> ctx (app (startup c s)) = c
       \<and> goroutines (startup c s) = goroutines s
       \<and> filter registered (hotkeys (startup c s)) = filter registered (hotkeys s)
       \<and> window_state (startup c s) = window_state s
       \<and> visible (ShowOverlay (startup c s))
       \<and> trace (ShowOverlay (startup c s)) = trace (startup c s) @ show_cycle c
       \<and> \<not> visible (HideOverlay (startup c s))
       \<and> trace (HideOverlay (startup c s)) = trace (startup c s) @ hide_cycle c"
  using assms
  by (simp add: startup_denied ShowOverlay_eq HideOverlay_eq window_state_def fresh_hotkey_def
        Register_def hotkey_New_def Let_def)

theorem startup_registration_fails_witness:
  "\<not> hotkeyInitOnce (init_sys True) \<and> os_denies (init_sys True) \<and> hk (app (init_sys True)) = None
   \<and> hk (app (startup (Some 7) (init_sys True))) = None
   \<and> goroutines (startup (Some 7) (init_sys True)) = []
   \<and> trace (ShowOverlay (startup (Some 7) (init_sys True)))
       = trace (startup (Some 7) (init_sys True)) @ show_cycle (Some 7)
   \<and> trace (HideOverlay (startup (Some 7) (init_sys True)))
       = trace (startup (Some 7) (init_sys True)) @ hide_cycle (Some 7)"
  using startup_registration_fails [of "init_sys True" "Some 7"]
  by (simp add: init_sys_def NewApp_def)

text \<open>
  Claim C6. In any state of any execution in which \<^verbatim>\<open>a.hk\<close> holds a handle, \<^verbatim>\<open>Cleanup\<close>
  returns \<^verbatim>\<open>false\<close> and, whatever happens afterwards, no further \<^verbatim>\<open>show-overlay\<close> emit
  is made, every hotkey object is without binding and has an empty, closed notification
  sequence, and every listener goroutine, run from there, leaves its loop at once.
\<close>

theorem Cleanup_ends_notifications:
  assumes "hk (app (exec as (init_sys d))) \<noteq> None"
  shows "\<exists>s'. Cleanup c (exec as (init_sys d)) = Inr (False, s')
     \<and> (\<forall>bs. filter is_emit (trace (exec bs s')) = filter is_emit (trace s')
            \<and> list_all (\<lambda>x. \<not> registered x \<and> keydown x = [] \<and> keydown_closed x)
                 (hotkeys (exec bs s'))
            \<and> (\<forall>h c'. Listener h c' \<in> set (goroutines (exec bs s')) \<longrightarrow>
                  hotkey_listener h c' (exec bs s') = (Exited, exec bs s')))"
proof -
  let ?s = "exec as (init_sys d)"
  from assms obtain h where h: "hk (app ?s) = Some h" by blast
  have i: "sys_inv ?s"
    by (rule inv_exec [OF inv_init])
  let ?s' = "snd (Unregister h ?s)"
  have c: "Cleanup c ?s = Inr (False, ?s')"
    using h by (simp add: Cleanup_eq)
  have r: "released ?s'"
    by (rule Cleanup_released [OF i h])
  have "filter is_emit (trace (exec bs ?s')) = filter is_emit (trace ?s')
      \<and> list_all (\<lambda>x. \<not> registered x \<and> keydown x = [] \<and> keydown_closed x) (hotkeys (exec bs ?s'))
      \<and> (\<forall>h c'. Listener h c' \<in> set (goroutines (exec bs ?s')) \<longrightarrow>
             hotkey_listener h c' (exec bs ?s') = (Exited, exec bs ?s'))" for bs
  proof -
    from released_exec [OF r, of bs]
    have rb: "released (exec bs ?s')"
      and eb: "filter is_emit (trace (exec bs ?s')) = filter is_emit (trace ?s')"
      by simp_all
    from rb have "list_all (\<lambda>x. \<not> registered x \<and> keydown x = [] \<and> keydown_closed x)
        (hotkeys (exec bs ?s'))"
      by (simp add: released_def)
    with eb released_listener [OF rb] show ?thesis by blast
  qed
  with c show ?thesis by blast
qed

theorem Cleanup_ends_notifications_witness:
  "hk (app (exec [Do_mount, Do_startup (Some 0), Do_os_keypress 0] (init_sys False))) \<noteq> None
   \<and> (\<exists>s'. Cleanup None (exec [Do_mount, Do_startup (Some 0), Do_os_keypress 0] (init_sys False))
              = Inr (False, s')
          \<and> Listener 0 (Some 0) \<in> set (goroutines s')
          \<and> hotkey_listener 0 (Some 0) s' = (Exited, s')
          \<and> filter is_emit (trace (exec [Do_os_keypress 0, Do_goroutine 0] s'))
              = filter is_emit (trace s'))"
proof -
  let ?S = "exec [Do_mount, Do_startup (Some 0), Do_os_keypress 0] (init_sys False)"
  have S: "?S = (init_sys False)\<lparr>app := \<lparr>ctx = Some 0, hk = Some 0\<rparr>, hotkeyInitOnce := True,
      hotkeys := [(fresh_hotkey [ModCmd] KeyG)\<lparr>registered := True, keydown := [()]\<rparr>],
      goroutines := [Listener 0 (Some 0), Handler],
      listeners := [''show-overlay''], escape_listeners := 1,
      trace := [Call_new 0, Call_register 0, Call_go (Listener 0 (Some 0)), Call_go Handler]\<rparr>"
    by (simp add: init_sys_def useEffect_mount_def startup_granted os_keypress_def fresh_hotkey_def)
  have k: "hk (app ?S) \<noteq> None"
    by (simp only: S) simp
  from Cleanup_ends_notifications [OF k, of None]
  obtain s' where c: "Cleanup None ?S = Inr (False, s')"
    and a: "\<And>bs. filter is_emit (trace (exec bs s')) = filter is_emit (trace s')"
    and l: "\<And>bs h c'. Listener h c' \<in> set (goroutines (exec bs s')) \<Longrightarrow>
               hotkey_listener h c' (exec bs s') = (Exited, exec bs s')"
    by blast
  from c have "s' = snd (Unregister 0 ?S)"
    by (simp only: S Cleanup_eq) simp
  then have g: "Listener 0 (Some 0) \<in> set (goroutines s')"
    by (simp only: S) (simp add: Unregister_def Let_def)
  with l [of 0 "Some 0" "[]"] have "hotkey_listener 0 (Some 0) s' = (Exited, s')"
    by simp
  with k c g a [of "[Do_os_keypress 0, Do_goroutine 0]"] show ?thesis
    by blast
qed

text \<open>
  Claim C7, at an input where the program departs from it. The relay exists: the channel
  \<^verbatim>\<open>hotkeyEvents\<close> has capacity 1 and the handler goroutine consumes it. But the
  listener never sends on it. With the front end mounted and the hotkey registered, two
  presses of the combination followed by two iterations of the listener give two full
  show cycles, where the claim allows the effects of one; the channel is still as it was
  made, and both goroutines are there.
\<close>

theorem two_presses_two_cycles:
  "window_calls (exec [Do_mount, Do_startup (Some 0), Do_os_keypress 0, Do_os_keypress 0,
                       Do_goroutine 0, Do_goroutine 0] (init_sys False))
     = show_cycle (Some 0) @ show_cycle (Some 0)
   \<and> hotkeyEvents (exec [Do_mount, Do_startup (Some 0), Do_os_keypress 0, Do_os_keypress 0,
                       Do_goroutine 0, Do_goroutine 0] (init_sys False)) = make_chan 1
   \<and> goroutines (exec [Do_mount, Do_startup (Some 0), Do_os_keypress 0, Do_os_keypress 0,
                       Do_goroutine 0, Do_goroutine 0] (init_sys False))
     = [Listener 0 (Some 0), Handler]"
  by (simp add: init_sys_def useEffect_mount_def startup_granted os_keypress_def fresh_hotkey_def
        listener_step_def onHotkey_eq window_calls_def show_cycle_def make_chan_def NewApp_def)

text \<open>
  Claim C8. In every state of every execution the channel \<^verbatim>\<open>hotkeyEvents\<close> is as it was
  made, empty with capacity 1, since no step of the program sends on it; so the event
  handler goroutine is blocked in its receive and never reaches \<^verbatim>\<open>ShowOverlay\<close>. Every
  iteration of the listener that receives a notification appends the \<^verbatim>\<open>show-overlay\<close>
  emit to the trace, followed by the show cycles of the subscribed callbacks.
\<close>

theorem relay_never_used:
  "hotkeyEvents (exec as (init_sys d)) = make_chan 1
   \<and> handler_step (exec as (init_sys d)) = Blocked
   \<and> (\<forall>h c s'. listener_step h c (exec as (init_sys d)) = Ran s' \<longrightarrow>
         trace s' = trace (exec as (init_sys d)) @ Call_emit c ''show-overlay'' #
           concat (replicate (length (filter (\<lambda>n. n = ''show-overlay'')
                                        (listeners (exec as (init_sys d)))))
                     (show_cycle (ctx (app (exec as (init_sys d)))))))"
proof -
  have e: "hotkeyEvents (exec as (init_sys d)) = make_chan 1"
    using relay_exec [of "init_sys d" as] by (simp add: init_sys_def make_chan_def)
  then have b: "handler_step (exec as (init_sys d)) = Blocked"
    by (simp add: handler_step_def make_chan_def)
  have "trace s' = trace t @ Call_emit c ''show-overlay'' #
           concat (replicate (length (filter (\<lambda>n. n = ''show-overlay'') (listeners t)))
                     (show_cycle (ctx (app t))))"
    if "listener_step h c t = Ran s'" for h c s' t
    unfolding listener_Ran(3) [OF that] by (simp add: onHotkey_eq)
  with e b show ?thesis by blast
qed

theorem relay_never_used_witness:
  "listener_step 0 (Some 0) (exec [Do_mount, Do_startup (Some 0), Do_os_keypress 0] (init_sys False))
     = Ran (exec [Do_mount, Do_startup (Some 0), Do_os_keypress 0, Do_goroutine 0] (init_sys False))
   \<and> trace (exec [Do_mount, Do_startup (Some 0), Do_os_keypress 0, Do_goroutine 0] (init_sys False))
     = [Call_new 0, Call_register 0, Call_go (Listener 0 (Some 0)), Call_go Handler,
        Call_emit (Some 0) ''show-overlay'',
        Call_show (Some 0), Call_center (Some 0), Call_setAlwaysOnTop (Some 0) True]
   \<and> handler_step (exec [Do_mount, Do_startup (Some 0), Do_os_keypress 0, Do_goroutine 0] (init_sys False))
     = Blocked"
proof -
  let ?s = "exec [Do_mount, Do_startup (Some 0), Do_os_keypress 0] (init_sys False)"
  let ?t = "exec [Do_mount, Do_startup (Some 0), Do_os_keypress 0, Do_goroutine 0] (init_sys False)"
  have s: "?s = (init_sys False)\<lparr>app := \<lparr>ctx = Some 0, hk = Some 0\<rparr>, hotkeyInitOnce := True,
      hotkeys := [(fresh_hotkey [ModCmd] KeyG)\<lparr>registered := True, keydown := [()]\<rparr>],
      goroutines := [Listener 0 (Some 0), Handler],
      listeners := [''show-overlay''], escape_listeners := 1,
      trace := [Call_new 0, Call_register 0, Call_go (Listener 0 (Some 0)), Call_go Handler]\<rparr>"
    by (simp add: init_sys_def useEffect_mount_def startup_granted os_keypress_def fresh_hotkey_def)
  have r: "listener_step 0 (Some 0) ?s = Ran ?t"
    by (simp add: init_sys_def useEffect_mount_def startup_granted os_keypress_def fresh_hotkey_def
          listener_step_def)
  from relay_never_used [of "[Do_mount, Do_startup (Some 0), Do_os_keypress 0]" False] r
  have "trace ?t = trace ?s @ Call_emit (Some 0) ''show-overlay'' #
           concat (replicate (length (filter (\<lambda>n. n = ''show-overlay'') (listeners ?s)))
                     (show_cycle (ctx (app ?s))))"
    by blast
  then have "trace ?t = [Call_new 0, Call_register 0, Call_go (Listener 0 (Some 0)), Call_go Handler,
        Call_emit (Some 0) ''show-overlay'',
        Call_show (Some 0), Call_center (Some 0), Call_setAlwaysOnTop (Some 0) True]"
    by (simp only: s) (simp add: show_cycle_def)
  moreover have "handler_step ?t = Blocked"
    using relay_never_used [of "[Do_mount, Do_startup (Some 0), Do_os_keypress 0, Do_goroutine 0]" False]
    by blast
  ultimately show ?thesis using r by blast
qed

text \<open>
  Claim C9. In every state of every execution, whatever the number of \<^verbatim>\<open>startup\<close>
  calls, at most one registration call has been made, at most two goroutines have been
  started, at most one hotkey object exists, and at most one binding is held.
\<close>

theorem registration_at_most_once:
  "length (filter is_register (trace (exec as (init_sys d)))) \<le> 1
   \<and> length (filter is_go (trace (exec as (init_sys d)))) \<le> 2
   \<and> length (hotkeys (exec as (init_sys d))) \<le> 1
   \<and> length (filter registered (hotkeys (exec as (init_sys d)))) \<le> 1
   \<and> length (goroutines (exec as (init_sys d))) \<le> 2"
proof -
  let ?s = "exec as (init_sys d)"
  have i: "sys_inv ?s"
    by (rule inv_exec [OF inv_init])
  have h: "length (hotkeys ?s) \<le> 1"
    using i by (cases "hotkeyInitOnce ?s") (simp_all add: sys_inv_def)
  have g: "length (goroutines ?s) \<le> 2"
    using i by (cases "hk (app ?s)") (simp_all add: sys_inv_def)
  have f: "length (filter registered (hotkeys ?s)) \<le> 1"
    by (rule order_trans [OF length_filter_le h])
  from i have "length (filter is_register (trace ?s)) = length (hotkeys ?s)"
    and "length (filter is_go (trace ?s)) = length (goroutines ?s)"
    by (simp_all add: sys_inv_def)
  with h g f show ?thesis
    by simp
qed

text \<open>
  Claim C10. From every state \<^verbatim>\<open>Cleanup\<close> returns \<^verbatim>\<open>false\<close> and does not panic. When
  \<^verbatim>\<open>a.hk\<close> is nil the state is unchanged, so no unregister call is made; when it holds a
  handle, exactly one unregister call is made and its error, if any, is dropped.
\<close>

theorem Cleanup_returns_false:
  "(\<exists>s'. Cleanup c s = Inr (False, s'))
   \<and> (hk (app s) = None \<longrightarrow> Cleanup c s = Inr (False, s))
   \<and> (\<forall>h. hk (app s) = Some h \<longrightarrow>
         Cleanup c s = Inr (False, snd (Unregister h s))
         \<and> trace (snd (Unregister h s)) = trace s @ [Call_unregister h])"
  by (auto simp: Cleanup_def ptr_Unregister_def Unregister_def Let_def split: prod.splits)

theorem Cleanup_returns_false_witness:
  "hk (app (init_sys False)) = None
   \<and> Cleanup None (init_sys False) = Inr (False, init_sys False)
   \<and> hk (app (snd (Unregister 0 (startup (Some 0) (init_sys False))))) = Some 0
   \<and> fst (Unregister 0 (snd (Unregister 0 (startup (Some 0) (init_sys False))))) = Some NotRegistered
   \<and> (\<exists>s'. Cleanup None (snd (Unregister 0 (startup (Some 0) (init_sys False)))) = Inr (False, s'))"
  using Cleanup_returns_false [of None "init_sys False"]
    Cleanup_returns_false [of None "snd (Unregister 0 (startup (Some 0) (init_sys False)))"]
  by (simp add: init_sys_def NewApp_def startup_granted Unregister_def fresh_hotkey_def Let_def)

end
